theory Spec2Isabelle
  imports Main "HOL-Library.Finite_Map" "HOL-Library.Sublist"
begin

section \<open>Data model (internal/id)\<close>

text \<open>
  Modelled from the spec: the declaration of \<open>TriceID\<close> is not among the sources;
  the data model describes it as a non-negative integer inside an inclusive range,
  typically of 16 bits. It is taken as an integer, and the range arithmetic
  \<open>max - min + 1\<close> of the allocators is exact: the results are about ranges whose
  size fits the \<open>int\<close> of the platform.
\<close>

type_synonym TriceID = int

record TriceFmt =
  Type :: string
  Strg :: string

text \<open>
  \<open>TriceIDLookUp\<close> is a Go map from \<open>TriceID\<close> to \<open>TriceFmt\<close>: a finite map.
  \<open>len(ilu)\<close> is the number of its keys.
\<close>

type_synonym TriceIDLookUp = "(TriceID, TriceFmt) fmap"



section \<open>Messages and fatal exits (manage.go)\<close>



section \<open>The ID allocators (manage.go)\<close>

subsection \<open>newUpwardID\<close>




subsection \<open>newDownwardID\<close>




subsection \<open>newRandomID\<close>



subsection \<open>newID\<close>


subsection \<open>Catalogs and generators used as concrete inputs\<close>







section \<open>Cached cleaning of one source file (cachedClean.go)\<close>

subsection \<open>Run state, filesystem interface and collaborators\<close>

datatype error = Error string

text \<open>\<open>os.FileInfo\<close>: the model reads the modification time only, an instant.\<close>

record FileInfo =
  ModTime :: int

text \<open>
  Modelled from the spec: the struct \<open>idData\<close> is declared outside the sources. The
  model names its accumulated error \<open>p.err\<close> (a joined error: the list of the errors
  joined so far, \<open>[]\<close> for \<open>nil\<close>) and the catalog; all other fields are the record's
  extension.
\<close>

record idData =
  err :: "error list"
  idToFmt :: TriceIDLookUp

text \<open>
  Modelled from the spec: \<open>p.join\<close> is not in the sources; it joins an error into the
  accumulator on the run state and leaves a \<open>nil\<close> error out.
\<close>

definition join :: "error option \<Rightarrow> 'z idData_scheme \<Rightarrow> 'z idData_scheme" where
  "join e d = (case e of None \<Rightarrow> d | Some x \<Rightarrow> d\<lparr>err := err d @ [x]\<rparr>)"

text \<open>
  What one call does to the outside, in order: the lines handed to \<open>msg.Tell\<close>,
  \<open>msg.OnErrFv\<close> and \<open>fmt.Fprintln\<close>, and the calls that can change the filesystem.
\<close>

datatype event =
    Tell string
  | OnErrFv "error list"
  | FolderNotFound string
  | CallRemove string
  | CallMkdirAll string
  | CallCopyFileWithMTime string string
  | CallProcessTriceIDCleaning string

text \<open>
  The state one call works on: the filesystem behind \<open>fSys\<close>, the receiver \<open>p\<close> and
  the output so far.
\<close>

record ('fs, 'z) world =
  fsys :: 'fs
  idd :: "'z idData_scheme"
  out :: "event list"

text \<open>
  Everything the function reads from outside its body. The package variables
  \<open>TriceCacheEnabled\<close> and \<open>UserHomeDir\<close>, the two cache folder names,
  \<open>runtime.GOOS\<close>, \<open>os.UserHomeDir\<close> and the \<open>filepath\<close> functions depend on
  the platform and the command line. \<open>Stat\<close>, \<open>Remove\<close> and \<open>MkdirAll\<close> are the
  methods of the \<open>afero\<close> filesystem: any implementation, also a failing one.
  Modelled from the spec: \<open>CopyFileWithMTime\<close> (copy a file and keep its modification
  time), \<open>fileExists\<close> and \<open>processTriceIDCleaning\<close> (the transform: it reads, cleans
  and writes back the file and may change the run state) are functions of the
  repository outside the sources; they are parameters here.
\<close>

record ('fs, 'z) env =
  TriceCacheEnabled :: bool
  UserHomeDir :: string
  insertedCacheFolderName :: string
  cleanedCacheFolderName :: string
  GOOS :: string
  osUserHomeDir :: "error + string"
  Abs :: "string \<Rightarrow> error + string"
  Join :: "string list \<Rightarrow> string"
  Dir :: "string \<Rightarrow> string"
  Stat :: "'fs \<Rightarrow> string \<Rightarrow> error + FileInfo"
  Remove :: "string \<Rightarrow> 'fs \<Rightarrow> error option \<times> 'fs"
  MkdirAll :: "string \<Rightarrow> 'fs \<Rightarrow> error option \<times> 'fs"
  CopyFileWithMTime :: "string \<Rightarrow> string \<Rightarrow> 'fs \<Rightarrow> error option \<times> 'fs"
  fileExists :: "'fs \<Rightarrow> string \<Rightarrow> bool"
  processTriceIDCleaning ::
    "string \<Rightarrow> FileInfo \<Rightarrow> 'fs \<times> 'z idData_scheme \<Rightarrow> error option \<times> 'fs \<times> 'z idData_scheme"

subsection \<open>Steps of the function body\<close>

text \<open>\<open>strings.Cut(s, ":")\<close> for a separator of one character.\<close>

fun Cut :: "string \<Rightarrow> char \<Rightarrow> string \<times> string \<times> bool" where
  "Cut [] c = ([], [], False)"
| "Cut (x # xs) c =
     (if x = c then ([], xs, True)
      else (case Cut xs c of (before, after, found) \<Rightarrow> (x # before, after, found)))"

definition tell :: "string \<Rightarrow> ('fs, 'z) world \<Rightarrow> ('fs, 'z) world" where
  "tell info s = s\<lparr>out := out s @ [Tell info]\<rparr>"

text \<open>\<open>return msg.OnErrFv(w, p.err)\<close>: report the accumulated error and return it.\<close>

definition returnOnErrFv :: "('fs, 'z) world \<Rightarrow> error list \<times> ('fs, 'z) world" where
  "returnOnErrFv s = (err (idd s), s\<lparr>out := out s @ [OnErrFv (err (idd s))]\<rparr>)"

text \<open>\<open>fSys.Remove(path)\<close> with the error dropped, as at the two call sites.\<close>

definition doRemove :: "('fs, 'z) env \<Rightarrow> string \<Rightarrow> ('fs, 'z) world \<Rightarrow> ('fs, 'z) world" where
  "doRemove E path s =
     s\<lparr>fsys := snd (Remove E path (fsys s)), out := out s @ [CallRemove path]\<rparr>"

text \<open>\<open>err = fSys.MkdirAll(dir, 0o700); p.join(err)\<close>\<close>

definition doMkdirAll :: "('fs, 'z) env \<Rightarrow> string \<Rightarrow> ('fs, 'z) world \<Rightarrow> ('fs, 'z) world" where
  "doMkdirAll E dir s =
     (case MkdirAll E dir (fsys s) of
        (e, fs') \<Rightarrow> s\<lparr>fsys := fs', idd := join e (idd s), out := out s @ [CallMkdirAll dir]\<rparr>)"

text \<open>\<open>err = CopyFileWithMTime(fSys, dst, src); p.join(err)\<close>\<close>

definition doCopy ::
  "('fs, 'z) env \<Rightarrow> string \<Rightarrow> string \<Rightarrow> ('fs, 'z) world \<Rightarrow> ('fs, 'z) world" where
  "doCopy E dst src s =
     (case CopyFileWithMTime E dst src (fsys s) of
        (e, fs') \<Rightarrow>
          s\<lparr>fsys := fs', idd := join e (idd s), out := out s @ [CallCopyFileWithMTime dst src]\<rparr>)"

text \<open>\<open>err = p.processTriceIDCleaning(w, fSys, path, fileInfo, a); p.join(err)\<close>\<close>

definition doProcess ::
  "('fs, 'z) env \<Rightarrow> string \<Rightarrow> FileInfo \<Rightarrow> ('fs, 'z) world \<Rightarrow> ('fs, 'z) world" where
  "doProcess E path fileInfo s =
     (case processTriceIDCleaning E path fileInfo (fsys s, idd s) of
        (e, fs', d') \<Rightarrow>
          s\<lparr>fsys := fs', idd := join e d', out := out s @ [CallProcessTriceIDCleaning path]\<rparr>)"

subsection \<open>triceIDCleaning\<close>

text \<open>The code from the label \<open>clean:\<close> to the end of the function.\<close>

definition cleanLabel ::
  "('fs, 'z) env \<Rightarrow> string \<Rightarrow> FileInfo \<Rightarrow> bool \<Rightarrow> string \<Rightarrow> string \<Rightarrow> ('fs, 'z) world
     \<Rightarrow> error list \<times> ('fs, 'z) world" where
  "cleanLabel E path fileInfo cacheExists cleanedCachePath cache s =
     (let s1 = doProcess E path fileInfo s;
          s2 = (if TriceCacheEnabled E \<and> cacheExists \<and> err (idd s1) = []
                then doCopy E cleanedCachePath path
                       (doMkdirAll E (Dir E cleanedCachePath)
                          (tell ''Copy file into the cleaned-cache.'' s1))
                else s1);
          s3 = (if TriceCacheEnabled E \<and> \<not> cacheExists
                then s2\<lparr>out := out s2 @ [FolderNotFound cache]\<rparr>
                else s2)
      in returnOnErrFv s3)"

text \<open>
  The drive letter rule: \<open>Inl\<close> is the early \<open>return err\<close> when
  \<open>os.UserHomeDir\<close> fails, \<open>Inr\<close> the path with its first colon removed.
\<close>

definition dropColon :: "('fs, 'z) env \<Rightarrow> string \<Rightarrow> error + string" where
  "dropColon E fullPath =
     (case Cut fullPath (CHR '':'') of
        (before, after, found) \<Rightarrow>
          if found \<and> GOOS E = ''windows'' \<and> length before = 1
          then (case osUserHomeDir E of
                  Inl e \<Rightarrow> Inl e
                | Inr home \<Rightarrow> Inr ((if home \<noteq> UserHomeDir E then [] else before) @ after))
          else Inr (before @ after))"

text \<open>The local \<open>cache\<close> and the two cache paths built from it.\<close>

definition cacheDir :: "('fs, 'z) env \<Rightarrow> string" where
  "cacheDir E = Join E [UserHomeDir E, ''.trice/cache'']"

definition insertedCachePath :: "('fs, 'z) env \<Rightarrow> string \<Rightarrow> string" where
  "insertedCachePath E fullPath = Join E [cacheDir E, insertedCacheFolderName E, fullPath]"

definition cleanedCachePath :: "('fs, 'z) env \<Rightarrow> string \<Rightarrow> string" where
  "cleanedCachePath E fullPath = Join E [cacheDir E, cleanedCacheFolderName E, fullPath]"

text \<open>
  The first block of the body (\<open>cache stuff\<close>, up to the label \<open>clean:\<close>) either
  returns (\<open>Inl\<close>, with the returned error) or reaches the label (\<open>Inr\<close>, with the
  locals \<open>cacheExists\<close> and \<open>cleanedCachePath\<close> and the state reached).
  \<open>cacheDecision\<close> is the part of it that follows the construction of the two paths.
\<close>

definition cacheDecision ::
  "('fs, 'z) env \<Rightarrow> string \<Rightarrow> FileInfo \<Rightarrow> string \<Rightarrow> ('fs, 'z) world
     \<Rightarrow> (error list \<times> ('fs, 'z) world) + (bool \<times> string \<times> ('fs, 'z) world)" where
  "cacheDecision E path fileInfo fullPath s =
     (case Stat E (fsys s) (cleanedCachePath E fullPath) of
        Inl _ \<Rightarrow> Inr (True, cleanedCachePath E fullPath, tell ''no cleaned Cache file'' s)
      | Inr cCache \<Rightarrow>
          if ModTime fileInfo = ModTime cCache
          then Inl (returnOnErrFv (tell ''trice c was executed before, nothing to do'' s))
          else
            (case Stat E (fsys s) (insertedCachePath E fullPath) of
               Inl _ \<Rightarrow> Inr (True, cleanedCachePath E fullPath, tell ''no inserted Cache file'' s)
             | Inr iCache \<Rightarrow>
                 if ModTime fileInfo = ModTime iCache
                    \<and> fileExists E (fsys s) (cleanedCachePath E fullPath)
                 then Inl (returnOnErrFv
                             (doCopy E path (cleanedCachePath E fullPath)
                                (tell ''trice c was executed before, copy cCache into file'' s)))
                 else Inr (True, cleanedCachePath E fullPath,
                           doRemove E (cleanedCachePath E fullPath)
                             (doRemove E (insertedCachePath E fullPath)
                                (tell ''File was edited, invalidate cache'' s)))))"

definition cacheStuff ::
  "('fs, 'z) env \<Rightarrow> string \<Rightarrow> FileInfo \<Rightarrow> ('fs, 'z) world
     \<Rightarrow> (error list \<times> ('fs, 'z) world) + (bool \<times> string \<times> ('fs, 'z) world)" where
  "cacheStuff E path fileInfo s =
     (if TriceCacheEnabled E then
        (case Stat E (fsys s) (cacheDir E) of
           Inl _ \<Rightarrow> Inr (False, [], s)
         | Inr _ \<Rightarrow>
             (case Abs E path of
                Inl e \<Rightarrow>
                  (case dropColon E [] of
                     Inl e' \<Rightarrow> Inl ([e'], s\<lparr>idd := join (Some e) (idd s)\<rparr>)
                   | Inr fullPath \<Rightarrow>
                       cacheDecision E path fileInfo fullPath (s\<lparr>idd := join (Some e) (idd s)\<rparr>))
              | Inr absPath \<Rightarrow>
                  (case dropColon E absPath of
                     Inl e' \<Rightarrow> Inl ([e'], s)
                   | Inr fullPath \<Rightarrow> cacheDecision E path fileInfo fullPath s)))
      else Inr (False, [], s))"

definition triceIDCleaning ::
  "('fs, 'z) env \<Rightarrow> string \<Rightarrow> FileInfo \<Rightarrow> ('fs, 'z) world \<Rightarrow> error list \<times> ('fs, 'z) world" where
  "triceIDCleaning E path fileInfo s =
     (if err (idd s) \<noteq> [] then (err (idd s), s)
      else
        (case cacheStuff E path fileInfo s of
           Inl r \<Rightarrow> r
         | Inr (cacheExists, cleanedPath, s0) \<Rightarrow>
             cleanLabel E path fileInfo cacheExists cleanedPath (cacheDir E) s0))"

subsection \<open>A run over several files\<close>


subsection \<open>An in-memory filesystem for concrete runs\<close>

text \<open>
  Files are a finite map from a path to content and modification time; directories
  are entries like files. The transform of this environment fails on a file whose
  content is \<open>broken\<close> and otherwise rewrites the file, one tick later.
\<close>

type_synonym memFs = "(string, string \<times> int) fmap"

definition memStat :: "memFs \<Rightarrow> string \<Rightarrow> error + FileInfo" where
  "memStat fs q =
     (case fmlookup fs q of
        None \<Rightarrow> Inl (Error ''file does not exist'')
      | Some (c, t) \<Rightarrow> Inr \<lparr>ModTime = t\<rparr>)"

definition memRemove :: "string \<Rightarrow> memFs \<Rightarrow> error option \<times> memFs" where
  "memRemove q fs =
     (case fmlookup fs q of
        None \<Rightarrow> (Some (Error ''file does not exist''), fs)
      | Some f \<Rightarrow> (None, fmdrop q fs))"

definition memMkdirAll :: "string \<Rightarrow> memFs \<Rightarrow> error option \<times> memFs" where
  "memMkdirAll q fs = (None, fs)"

definition memCopyFileWithMTime :: "string \<Rightarrow> string \<Rightarrow> memFs \<Rightarrow> error option \<times> memFs" where
  "memCopyFileWithMTime dst src fs =
     (case fmlookup fs src of
        None \<Rightarrow> (Some (Error ''file does not exist''), fs)
      | Some f \<Rightarrow> (None, fmupd dst f fs))"

definition memFileExists :: "memFs \<Rightarrow> string \<Rightarrow> bool" where
  "memFileExists fs q = (fmlookup fs q \<noteq> None)"

definition memProcess ::
  "string \<Rightarrow> FileInfo \<Rightarrow> memFs \<times> idData \<Rightarrow> error option \<times> memFs \<times> idData" where
  "memProcess path fileInfo st =
     (case st of
        (fs, d) \<Rightarrow>
          (case fmlookup fs path of
             None \<Rightarrow> (Some (Error ''file does not exist''), fs, d)
           | Some (c, t) \<Rightarrow>
               if c = ''broken'' then (Some (Error ''transform failed''), fs, d)
               else (None, fmupd path (''cleaned'', t + 1) fs, d)))"

fun memJoin :: "string list \<Rightarrow> string" where
  "memJoin [] = []"
| "memJoin [a] = a"
| "memJoin (a # b # r) = a @ ''/'' @ memJoin (b # r)"

definition memEnv :: "bool \<Rightarrow> (memFs, unit) env" where
  "memEnv cacheFlag =
     \<lparr>TriceCacheEnabled = cacheFlag,
      UserHomeDir = ''~'',
      insertedCacheFolderName = ''inserted'',
      cleanedCacheFolderName = ''cleaned'',
      GOOS = ''linux'',
      osUserHomeDir = Inr ''~'',
      Abs = Inr,
      Join = memJoin,
      Dir = (\<lambda>q. q),
      Stat = memStat,
      Remove = memRemove,
      MkdirAll = memMkdirAll,
      CopyFileWithMTime = memCopyFileWithMTime,
      fileExists = memFileExists,
      processTriceIDCleaning = memProcess\<rparr>"

definition memWorld :: "memFs \<Rightarrow> (memFs, unit) world" where
  "memWorld fs = \<lparr>fsys = fs, idd = \<lparr>err = [], idToFmt = fmempty\<rparr>, out = []\<rparr>"

text \<open>
  Three trees. In each the cache folder exists. \<open>cleanedTree\<close>: \<open>a.c\<close> with a cleaned
  twin of the same modification time. \<open>editedTree\<close>: \<open>a.c\<close> edited at time 9, both
  twins from time 5. \<open>brokenTree\<close>: like \<open>editedTree\<close>, with a file the
  transform fails on.
\<close>

definition cleanedTree :: memFs where
  "cleanedTree =
     fmupd ''~/.trice/cache'' ([], 1)
       (fmupd ''a.c'' (''trice(x)'', 5)
          (fmupd ''~/.trice/cache/cleaned/a.c'' (''trice(x)'', 5) fmempty))"



section \<open>The standard library functions used by AddFmtCount\<close>

subsection \<open>Package strings and strconv\<close>

text \<open>
  Go strings are byte sequences. \<open>strings.ContainsAny\<close> is called with one ASCII
  letter at a time, where it is a search for that byte.
\<close>

definition ContainsAny :: "string \<Rightarrow> string \<Rightarrow> bool" where
  "ContainsAny s chars = list_ex (\<lambda>c. c \<in> set s) chars"

definition HasPrefix :: "string \<Rightarrow> string \<Rightarrow> bool" where
  "HasPrefix s pre = (take (length pre) s = pre)"

definition HasSuffix :: "string \<Rightarrow> string \<Rightarrow> bool" where
  "HasSuffix s suf = (length suf \<le> length s \<and> drop (length s - length suf) s = suf)"

text \<open>\<open>strings.Split(s, sep)\<close> for a separator of one character.\<close>

fun Split :: "string \<Rightarrow> char \<Rightarrow> string list" where
  "Split [] sep = [[]]"
| "Split (c # cs) sep =
     (if c = sep then [] # Split cs sep
      else (case Split cs sep of
              [] \<Rightarrow> [[c]]
            | part # parts \<Rightarrow> (c # part) # parts))"

definition isDigit :: "char \<Rightarrow> bool" where
  "isDigit c = (48 \<le> (of_char c :: nat) \<and> (of_char c :: nat) \<le> 57)"

definition digitVal :: "char \<Rightarrow> int" where
  "digitVal c = int (of_char c) - 48"

text \<open>
  \<open>strconv.Atoi\<close>: an optional sign and decimal digits, inside the range of a
  64-bit \<open>int\<close>; \<open>None\<close> is the error.
\<close>

definition Atoi :: "string \<Rightarrow> int option" where
  "Atoi s =
     (let neg = (s \<noteq> [] \<and> hd s = CHR ''-'');
          ds = (if s \<noteq> [] \<and> (hd s = CHR ''-'' \<or> hd s = CHR ''+'') then tl s else s);
          v = foldl (\<lambda>a c. a * 10 + digitVal c) 0 ds;
          r = (if neg then - v else v)
      in if ds = [] \<or> \<not> list_all isDigit ds then None
         else if r < - (2 ^ 63) \<or> 2 ^ 63 - 1 < r then None
         else Some r)"

subsection \<open>Package fmt: Sprintf with one int operand\<close>

text \<open>
  \<open>fmt.Sprintf(format, n)\<close> for an \<open>int\<close> operand \<open>n\<close>, after \<open>doPrintf\<close> of the
  standard library (Go 1.20 and later). The parser state holds the output buffer, the operand counter
  \<open>argNum\<close>, the flags \<open>reordered\<close>, \<open>goodArgNum\<close> and \<open>afterIndex\<close>, and the
  part of the format not yet read.
\<close>

record pp =
  buf :: string
  argNum :: nat
  reordered :: bool
  goodArgNum :: bool
  afterIndex :: bool
  rest :: string

function showNat :: "nat \<Rightarrow> string" where
  "showNat k =
     (if k < 10 then [''0123456789'' ! k]
      else showNat (k div 10) @ [''0123456789'' ! (k mod 10)])"
  by pat_completeness auto
termination
  by (relation "measure id") auto

declare showNat.simps [simp del]

definition showInt :: "int \<Rightarrow> string" where
  "showInt i = (if i < 0 then CHR ''-'' # showNat (nat (- i)) else showNat (nat i))"

definition tooLarge :: "int \<Rightarrow> bool" where
  "tooLarge x = (x > 1000000 \<or> x < - 1000000)"

text \<open>\<open>parsenum\<close>; \<open>None\<close> of the loop is the overflow exit \<open>return 0, false, end\<close>.\<close>

fun parsenum_loop :: "int \<Rightarrow> bool \<Rightarrow> string \<Rightarrow> (int \<times> bool \<times> string) option" where
  "parsenum_loop num isnum [] = Some (num, isnum, [])"
| "parsenum_loop num isnum (c # cs) =
     (if isDigit c
      then (if tooLarge num then None else parsenum_loop (num * 10 + digitVal c) True cs)
      else Some (num, isnum, c # cs))"

definition parsenum :: "string \<Rightarrow> int \<times> bool \<times> string" where
  "parsenum s = (case parsenum_loop 0 False s of None \<Rightarrow> (0, False, []) | Some r \<Rightarrow> r)"

text \<open>
  \<open>parseArgNumber\<close> on a format that starts with the opening bracket: the index,
  the number of bytes to skip, and whether the number parsed.
\<close>

definition parseArgNumber :: "string \<Rightarrow> int \<times> nat \<times> bool" where
  "parseArgNumber format =
     (if length format < 3 then (0, 1, False)
      else if CHR '']'' \<notin> set (tl format) then (0, 1, False)
      else
        let inner = takeWhile (\<lambda>c. c \<noteq> CHR '']'') (tl format)
        in (case parsenum inner of
              (width, ok, r) \<Rightarrow>
                if \<not> ok \<or> r \<noteq> [] then (0, length inner + 2, False)
                else (width - 1, length inner + 2, True)))"

text \<open>\<open>argNumber\<close> with one operand; the second component is \<open>found\<close>.\<close>

definition argNumber :: "pp \<Rightarrow> pp \<times> bool" where
  "argNumber p =
     (if rest p = [] \<or> hd (rest p) \<noteq> CHR ''['' then (p, False)
      else
        (case parseArgNumber (rest p) of
           (index, wid, ok) \<Rightarrow>
             if ok \<and> 0 \<le> index \<and> index < 1
             then (p\<lparr>reordered := True, argNum := nat index, rest := drop wid (rest p)\<rparr>, True)
             else (p\<lparr>reordered := True, goodArgNum := False, rest := drop wid (rest p)\<rparr>, ok)))"

text \<open>
  \<open>intFromArg\<close> with the one operand \<open>n\<close>: the new state and whether an integer of
  usable size was there.
\<close>

definition intFromArg :: "int \<Rightarrow> pp \<Rightarrow> pp \<times> int \<times> bool" where
  "intFromArg n p =
     (if argNum p < 1
      then (p\<lparr>argNum := argNum p + 1\<rparr>, (if tooLarge n then 0 else n), \<not> tooLarge n)
      else (p, 0, False))"

definition writeString :: "string \<Rightarrow> pp \<Rightarrow> pp" where
  "writeString s p = p\<lparr>buf := buf p @ s\<rparr>"

text \<open>Width: a star takes the operand, else \<open>parsenum\<close>.\<close>

definition parseWidth :: "int \<Rightarrow> pp \<Rightarrow> pp" where
  "parseWidth n p =
     (if rest p \<noteq> [] \<and> hd (rest p) = CHR ''*''
      then
        (case intFromArg n (p\<lparr>rest := tl (rest p)\<rparr>) of
           (p1, wid, widPresent) \<Rightarrow>
             (if \<not> widPresent then writeString ''%!(BADWIDTH)'' p1 else p1)\<lparr>afterIndex := False\<rparr>)
      else
        (case parsenum (rest p) of
           (wid, widPresent, r) \<Rightarrow>
             p\<lparr>rest := r, goodArgNum := goodArgNum p \<and> \<not> (afterIndex p \<and> widPresent)\<rparr>))"

text \<open>Precision, after a dot.\<close>

definition parsePrecision :: "int \<Rightarrow> pp \<Rightarrow> pp" where
  "parsePrecision n p =
     (if rest p \<noteq> [] \<and> hd (rest p) = CHR ''.''
      then
        (case argNumber (p\<lparr>rest := tl (rest p), goodArgNum := goodArgNum p \<and> \<not> afterIndex p\<rparr>) of
           (p1, found) \<Rightarrow>
             if rest p1 \<noteq> [] \<and> hd (rest p1) = CHR ''*''
             then
               (case intFromArg n (p1\<lparr>rest := tl (rest p1)\<rparr>) of
                  (p2, prec, precPresent) \<Rightarrow>
                    (if \<not> (precPresent \<and> \<not> prec < 0) then writeString ''%!(BADPREC)'' p2 else p2)
                      \<lparr>afterIndex := False\<rparr>)
             else
               (case parsenum (rest p1) of
                  (prec, precPresent, r) \<Rightarrow> p1\<lparr>rest := r, afterIndex := found\<rparr>))
      else p)"

text \<open>
  \<open>utf8.DecodeRuneInString\<close> as far as the verb needs it: the number of bytes the
  rune takes and the bytes \<open>writeRune\<close> writes for it (the replacement character
  for an invalid encoding).
\<close>

definition contByte :: "nat \<Rightarrow> nat \<Rightarrow> string \<Rightarrow> nat \<Rightarrow> bool" where
  "contByte lo hi s k = (k < length s \<and> lo \<le> (of_char (s ! k) :: nat) \<and> (of_char (s ! k) :: nat) \<le> hi)"

definition runeError :: string where
  "runeError = [CHR 0xEF, CHR 0xBF, CHR 0xBD]"

definition decodeRune :: "string \<Rightarrow> string \<times> nat" where
  "decodeRune s =
     (let b = (of_char (hd s) :: nat);
          sz = (if 194 \<le> b \<and> b \<le> 223 then 2
                else if 224 \<le> b \<and> b \<le> 239 then 3
                else if 240 \<le> b \<and> b \<le> 244 then 4 else 1);
          lo = (if b = 224 then 160 else if b = 240 then 144 else 128);
          hi = (if b = 237 then 159 else if b = 244 then 143 else 191)
      in if b < 128 then ([hd s], 1)
         else if sz = 1 then (runeError, 1)
         else if length s < sz then (runeError, 1)
         else if \<not> contByte lo hi s 1 then (runeError, 1)
         else if sz = 2 then (take 2 s, 2)
         else if \<not> contByte 128 191 s 2 then (runeError, 1)
         else if sz = 3 then (take 3 s, 3)
         else if \<not> contByte 128 191 s 3 then (runeError, 1)
         else (take 4 s, 4))"

text \<open>
  \<open>printArg\<close> for the \<open>int\<close> operand. The verbs an integer accepts print the
  number as flags, width and precision say; that rendering is the parameter \<open>R\<close>,
  applied to the text of the directive after its percent sign, except for the plain
  directive \<open>%d\<close>, which prints the decimal digits. Any other verb is a bad verb.
\<close>

definition intVerbs :: "string list" where
  "intVerbs = [''v'', ''d'', ''b'', ''o'', ''O'', ''x'', ''X'', ''c'', ''q'', ''U'', ''T'']"

definition printArg :: "(string \<Rightarrow> int \<Rightarrow> string) \<Rightarrow> string \<Rightarrow> string \<Rightarrow> int \<Rightarrow> string" where
  "printArg R directive verb n =
     (if verb \<in> set intVerbs
      then (if directive = ''d'' then showInt n else R directive n)
      else ''%!'' @ verb @ ''(int='' @ R directive n @ '')'')"

definition isFlag :: "char \<Rightarrow> bool" where
  "isFlag c = (c = CHR ''#'' \<or> c = CHR ''0'' \<or> c = CHR ''+'' \<or> c = CHR ''-'' \<or> c = CHR '' '')"

definition isLower :: "char \<Rightarrow> bool" where
  "isLower c = (97 \<le> (of_char c :: nat) \<and> (of_char c :: nat) \<le> 122)"

text \<open>The verb and its \<open>switch\<close>; \<open>r0\<close> is the format after the percent sign.\<close>

definition doVerb :: "(string \<Rightarrow> int \<Rightarrow> string) \<Rightarrow> int \<Rightarrow> string \<Rightarrow> pp \<Rightarrow> pp" where
  "doVerb R n r0 p =
     (case decodeRune (rest p) of
        (verb, sz) \<Rightarrow>
          let r = drop sz (rest p);
              directive = take (length r0 - length r) r0;
              p1 = p\<lparr>rest := r\<rparr>
          in if verb = ''%'' then writeString ''%'' p1
             else if \<not> goodArgNum p1 then writeString (''%!'' @ verb @ ''(BADINDEX)'') p1
             else if argNum p1 \<ge> 1 then writeString (''%!'' @ verb @ ''(MISSING)'') p1
             else (writeString (printArg R directive verb n) p1)\<lparr>argNum := argNum p1 + 1\<rparr>)"

text \<open>
  One directive, from the byte after the percent sign. The second component says
  that the format ended inside the directive (\<open>%!(NOVERB)\<close> and \<open>break\<close>).
\<close>

definition directiveSlow :: "(string \<Rightarrow> int \<Rightarrow> string) \<Rightarrow> int \<Rightarrow> string \<Rightarrow> pp \<Rightarrow> pp \<times> bool" where
  "directiveSlow R n r0 p =
     (case argNumber p of
        (p1, found1) \<Rightarrow>
          let p2 = parseWidth n (p1\<lparr>afterIndex := found1\<rparr>);
              p3 = parsePrecision n p2;
              p4 = (if \<not> afterIndex p3
                    then (case argNumber p3 of (q, found) \<Rightarrow> q\<lparr>afterIndex := found\<rparr>)
                    else p3)
          in if rest p4 = [] then (writeString ''%!(NOVERB)'' p4, True)
             else (doVerb R n r0 p4, False))"

definition directive :: "(string \<Rightarrow> int \<Rightarrow> string) \<Rightarrow> int \<Rightarrow> pp \<Rightarrow> pp \<times> bool" where
  "directive R n p =
     (let r0 = rest p;
          r1 = dropWhile isFlag r0
      in if r1 \<noteq> [] \<and> isLower (hd r1) \<and> argNum p < 1
         then ((writeString (printArg R (take (length r0 - length (tl r1)) r0) [hd r1] n)
                  (p\<lparr>rest := tl r1\<rparr>))\<lparr>argNum := argNum p + 1\<rparr>, False)
         else directiveSlow R n r0 (p\<lparr>rest := r1\<rparr>))"

text \<open>
  No step of a directive gives back bytes of the format: this is what ends the loop
  over the format.
\<close>

lemma parsenum_loop_length:
  "parsenum_loop num isnum s = Some (num', isnum', r) \<Longrightarrow> length r \<le> length s"
  by (induction num isnum s rule: parsenum_loop.induct) (auto split: if_splits)

lemma parsenum_length: "length (snd (snd (parsenum s))) \<le> length s"
  by (auto simp: parsenum_def split: option.splits dest: parsenum_loop_length)

lemma argNumber_length: "length (rest (fst (argNumber p))) \<le> length (rest p)"
  by (auto simp: argNumber_def split: prod.splits)

lemma parseWidth_length: "length (rest (parseWidth n p)) \<le> length (rest p)"
proof -
  have "length (snd (snd (parsenum (rest p)))) \<le> length (rest p)"
    by (rule parsenum_length)
  then show ?thesis
    by (auto simp: parseWidth_def intFromArg_def writeString_def split: prod.splits)
qed

lemma parsePrecision_length: "length (rest (parsePrecision n p)) \<le> length (rest p)"
proof (cases "rest p \<noteq> [] \<and> hd (rest p) = CHR ''.''")
  case False
  then show ?thesis by (auto simp: parsePrecision_def)
next
  case True
  let ?q = "p\<lparr>rest := tl (rest p), goodArgNum := goodArgNum p \<and> \<not> afterIndex p\<rparr>"
  obtain p1 found where a: "argNumber ?q = (p1, found)" by (cases "argNumber ?q")
  have l1: "length (rest p1) \<le> length (rest p)"
    using argNumber_length [of ?q] a by simp
  have l2: "length (snd (snd (parsenum (rest p1)))) \<le> length (rest p1)"
    by (rule parsenum_length)
  show ?thesis
    using True a l1 l2
    by (auto simp: parsePrecision_def intFromArg_def writeString_def split: prod.splits)
qed

lemma doVerb_length: "length (rest (doVerb R n r0 p)) \<le> length (rest p)"
  by (auto simp: doVerb_def writeString_def Let_def split: prod.splits)

lemma directiveSlow_length: "length (rest (fst (directiveSlow R n r0 p))) \<le> length (rest p)"
proof -
  obtain p1 found1 where a: "argNumber p = (p1, found1)"
    by (cases "argNumber p")
  let ?p2 = "parseWidth n (p1\<lparr>afterIndex := found1\<rparr>)"
  let ?p3 = "parsePrecision n ?p2"
  let ?p4 = "if \<not> afterIndex ?p3
             then (case argNumber ?p3 of (q, found) \<Rightarrow> q\<lparr>afterIndex := found\<rparr>) else ?p3"
  have l1: "length (rest p1) \<le> length (rest p)"
    using argNumber_length [of p] a by simp
  have l2: "length (rest ?p2) \<le> length (rest p1)"
    using parseWidth_length [of n "p1\<lparr>afterIndex := found1\<rparr>"] by simp
  have l3: "length (rest ?p3) \<le> length (rest ?p2)"
    by (rule parsePrecision_length)
  have l4: "length (rest ?p4) \<le> length (rest ?p3)"
    using argNumber_length [of ?p3] by (auto split: prod.splits)
  have l5: "length (rest (doVerb R n r0 ?p4)) \<le> length (rest ?p4)"
    by (rule doVerb_length)
  have l: "length (rest ?p4) \<le> length (rest p)"
    using l1 l2 l3 l4 by linarith
  have "directiveSlow R n r0 p =
          (if rest ?p4 = [] then (writeString ''%!(NOVERB)'' ?p4, True)
           else (doVerb R n r0 ?p4, False))"
    using a by (simp add: directiveSlow_def Let_def)
  then show ?thesis
    using l l5 by (simp add: writeString_def)
qed

lemma directive_length: "length (rest (fst (directive R n p))) \<le> length (rest p)"
proof -
  let ?r1 = "dropWhile isFlag (rest p)"
  have r1: "length ?r1 \<le> length (rest p)"
    by (rule length_dropWhile_le)
  show ?thesis
  proof (cases "?r1 \<noteq> [] \<and> isLower (hd ?r1) \<and> argNum p < 1")
    case True
    have "rest (fst (directive R n p)) = tl ?r1"
      unfolding directive_def Let_def if_P [OF True] by (simp add: writeString_def)
    then show ?thesis
      using r1 by simp
  next
    case False
    have "directive R n p = directiveSlow R n (rest p) (p\<lparr>rest := ?r1\<rparr>)"
      unfolding directive_def Let_def if_not_P [OF False] by (rule refl)
    then show ?thesis
      using directiveSlow_length [of R n "rest p" "p\<lparr>rest := ?r1\<rparr>"] r1 by simp
  qed
qed

text \<open>The loop of \<open>doPrintf\<close> over the format, and the check for an unused operand.\<close>

function doPrintf_loop :: "(string \<Rightarrow> int \<Rightarrow> string) \<Rightarrow> int \<Rightarrow> pp \<Rightarrow> pp" where
  "doPrintf_loop R n p =
     (let lit = takeWhile (\<lambda>c. c \<noteq> CHR ''%'') (rest p);
          r = dropWhile (\<lambda>c. c \<noteq> CHR ''%'') (rest p);
          p1 = p\<lparr>buf := buf p @ lit, goodArgNum := True, rest := r\<rparr>
      in if r = [] then p1
         else (case directive R n (p1\<lparr>rest := tl r\<rparr>) of
                 (p2, stop) \<Rightarrow> if stop then p2 else doPrintf_loop R n p2))"
  by pat_completeness auto
termination
proof (relation "measure (\<lambda>(R, n, p). length (rest p))", goal_cases)
  case 1
  show ?case by simp
next
  case (2 R n p lit r p1 p2 stop)
  have "length (rest (fst (directive R n (p1\<lparr>rest := tl r\<rparr>)))) \<le> length (tl r)"
    using directive_length [of R n "p1\<lparr>rest := tl r\<rparr>"] by simp
  moreover have "length r \<le> length (rest p)"
    unfolding 2(2) by (rule length_dropWhile_le)
  moreover have "fst (directive R n (p1\<lparr>rest := tl r\<rparr>)) = p2"
    using 2(5) by (metis fst_conv)
  ultimately show ?case
    using 2(4) by (cases r) auto
qed

declare doPrintf_loop.simps [simp del]

definition Sprintf :: "(string \<Rightarrow> int \<Rightarrow> string) \<Rightarrow> string \<Rightarrow> int \<Rightarrow> string" where
  "Sprintf R format n =
     (let p = doPrintf_loop R n
                \<lparr>buf = [], argNum = 0, reordered = False, goodArgNum = True,
                 afterIndex = False, rest = format\<rparr>
      in if \<not> reordered p \<and> argNum p < 1
         then buf p @ ''%!(EXTRA int='' @ showInt n @ '')''
         else buf p)"

section \<open>The format specifier reconciler (manage.go)\<close>

text \<open>What \<open>AddFmtCount\<close> prints to its writer.\<close>

datatype report =
    InvalidCount int TriceFmt       \<comment> \<open>\<open>Invalid format specifier count n - please check x\<close>\<close>
  | ExpectedOne TriceFmt int        \<comment> \<open>\<open>x <- Expected format specifier count is 1 but got n\<close>\<close>
  | ExpectedZero TriceFmt int       \<comment> \<open>\<open>x <- Expected format specifier count is 0 but got n\<close>\<close>
  | UnexpectedType TriceFmt         \<comment> \<open>\<open>Unexpected Trice type - please check x\<close>\<close>

text \<open>
  What the function reads from outside its body: \<open>formatSpecifierCount\<close> (declared
  outside the sources: the count rule is a parameter), the package variables
  \<open>SAliasStrgPrefix\<close> and \<open>SAliasStrgSuffix\<close>, and the rendering \<open>R\<close> of
  \<open>Sprintf\<close>.
\<close>

record fmtCfg =
  formatSpecifierCount :: "string \<Rightarrow> int"
  SAliasStrgPrefix :: string
  SAliasStrgSuffix :: string
  fmtRender :: "string \<Rightarrow> int \<Rightarrow> string"

text \<open>
  The body of the loop for one entry \<open>x\<close>: the lines printed, and the value written
  back by \<open>ilu[i] = x\<close> (\<open>None\<close> where the body leaves the loop round by
  \<open>continue\<close>).
\<close>

definition AddFmtCount_body :: "fmtCfg \<Rightarrow> TriceFmt \<Rightarrow> report list \<times> TriceFmt option" where
  "AddFmtCount_body cfg x =
     (let n = formatSpecifierCount cfg (Strg x)
      in if \<not> (0 \<le> n \<and> n \<le> 12) then ([InvalidCount n x], None)
         else if ContainsAny (Type x) ''S'' \<or> ContainsAny (Type x) ''N''
                 \<or> ContainsAny (Type x) ''B''
         then (if n \<noteq> 1
               then (if HasPrefix (Strg x) (SAliasStrgPrefix cfg)
                        \<and> HasSuffix (Strg x) (SAliasStrgSuffix cfg)
                     then ([], None)
                     else ([ExpectedOne x n], None))
               else ([], None))
         else if ContainsAny (Type x) ''F''
         then (if n \<noteq> 0 then ([ExpectedZero x n], None) else ([], None))
         else
           let s = Split (Type x) (CHR ''_'')
           in if length s > 2 then ([UnexpectedType x], None)
              else if length s = 2
              then (case Atoi (s ! 1) of
                      None \<Rightarrow> ([UnexpectedType x], None)
                    | Some i \<Rightarrow>
                        if i < 0 \<or> i > 12 then ([UnexpectedType x], None) else ([], None))
              else if n = 0 then ([], None)
              else ([], Some (x\<lparr>Type := Sprintf (fmtRender cfg) (Type x @ ''_%d'') n\<rparr>)))"

text \<open>
  The loop \<open>for i, x := range ilu\<close> over a list of the keys. Go fixes no order for
  it; the keys are taken in ascending order here, and \<open>AddFmtCount_loop_lookup\<close>
  below shows that the catalog obtained is the same for every order.
\<close>

fun AddFmtCount_loop ::
  "fmtCfg \<Rightarrow> TriceID list \<Rightarrow> TriceIDLookUp \<times> report list \<Rightarrow> TriceIDLookUp \<times> report list" where
  "AddFmtCount_loop cfg [] st = st"
| "AddFmtCount_loop cfg (i # keys) (ilu, w) =
     (case fmlookup ilu i of
        None \<Rightarrow> AddFmtCount_loop cfg keys (ilu, w)
      | Some x \<Rightarrow>
          (case AddFmtCount_body cfg x of
             (rs, None) \<Rightarrow> AddFmtCount_loop cfg keys (ilu, w @ rs)
           | (rs, Some x') \<Rightarrow> AddFmtCount_loop cfg keys (fmupd i x' ilu, w @ rs)))"

definition AddFmtCount :: "fmtCfg \<Rightarrow> TriceIDLookUp \<Rightarrow> TriceIDLookUp \<times> report list" where
  "AddFmtCount cfg ilu = AddFmtCount_loop cfg (sorted_list_of_fset (fmdom ilu)) (ilu, [])"

text \<open>The value of an entry after its round of the loop.\<close>

definition AddFmtCount_entry :: "fmtCfg \<Rightarrow> TriceFmt \<Rightarrow> TriceFmt" where
  "AddFmtCount_entry cfg x = (case snd (AddFmtCount_body cfg x) of None \<Rightarrow> x | Some x' \<Rightarrow> x')"

subsection \<open>A configuration and entries used as concrete inputs\<close>

text \<open>
  A count rule for concrete runs: the number of percent signs. The rendering of this
  configuration prints the decimal digits whatever the directive says.
\<close>

definition percentCount :: "string \<Rightarrow> int" where
  "percentCount s = int (length (filter (\<lambda>c. c = CHR ''%'') s))"

definition plainCfg :: fmtCfg where
  "plainCfg =
     \<lparr>formatSpecifierCount = percentCount, SAliasStrgPrefix = ''SALIAS('',
      SAliasStrgSuffix = '')'', fmtRender = (\<lambda>d n. showInt n)\<rparr>"

definition exampleCatalog :: TriceIDLookUp where
  "exampleCatalog =
     fmupd 10000 \<lparr>Type = ''Trice8_2'', Strg = ''hi %03u, %5x''\<rparr>
       (fmupd 10001 \<lparr>Type = ''TRICE16'', Strg = ''hi %03u, %5x''\<rparr> fmempty)"

definition percentCatalog :: TriceIDLookUp where
  "percentCatalog = fmupd 10001 \<lparr>Type = ''TRICE%d'', Strg = ''x=%d''\<rparr> fmempty"

subsection \<open>Two notions for the proofs about Sprintf\<close>

text \<open>
  A type name is \<open>marked\<close> when it holds an underscore or the letter \<open>N\<close>: then
  \<open>AddFmtCount\<close> does not rewrite it. A format is \<open>unread\<close> as long as the part
  not yet read still ends with the appended \<open>_%d\<close>, or is empty.
\<close>

definition marked :: "string \<Rightarrow> bool" where
  "marked b = (CHR ''_'' \<in> set b \<or> CHR ''N'' \<in> set b)"

definition unread :: "string \<Rightarrow> bool" where
  "unread r = (suffix ''_%d'' r \<or> r = [])"

section \<open>Properties of the ID allocators\<close>

























section \<open>Properties of the cached cleaning\<close>

lemma out_tell: "out (tell info s) = out s @ [Tell info]"
  and fsys_tell: "fsys (tell info s) = fsys s"
  and idd_tell: "idd (tell info s) = idd s"
  by (simp_all add: tell_def)

lemmas tell_simps = out_tell fsys_tell idd_tell

text \<open>
  Claim C6 (clean mode, cleaned twin up to date). With the cache enabled and the cache
  folder present, if the cleaned twin of the file exists and has the file's
  modification time, \<open>triceIDCleaning\<close> returns the error accumulated before the call
  and changes neither the filesystem (the file and both twins) nor the run state (the
  catalog); it calls no transform and no filesystem operation: to the output it adds
  one \<open>msg.Tell\<close> line and the call of \<open>msg.OnErrFv\<close> only. The twin of the file
  is the path built from \<open>filepath.Abs\<close> of the file's path.
\<close>

theorem triceIDCleaning_cleaned_before:
  assumes "TriceCacheEnabled E"
    and "Stat E (fsys s) (cacheDir E) = Inr cacheInfo"
    and "Abs E path = Inr absPath"
    and "dropColon E absPath = Inr fullPath"
    and "Stat E (fsys s) (cleanedCachePath E fullPath) = Inr cCache"
    and "ModTime cCache = ModTime fileInfo"
  shows "fst (triceIDCleaning E path fileInfo s) = err (idd s) \<and>
         fsys (snd (triceIDCleaning E path fileInfo s)) = fsys s \<and>
         idd (snd (triceIDCleaning E path fileInfo s)) = idd s \<and>
         out (snd (triceIDCleaning E path fileInfo s)) =
           out s @ (if err (idd s) = []
                    then [Tell ''trice c was executed before, nothing to do'', OnErrFv []]
                    else [])"
proof (cases "err (idd s) = []")
  case True
  have "cacheDecision E path fileInfo fullPath s =
          Inl (returnOnErrFv (tell ''trice c was executed before, nothing to do'' s))"
    using assms(5,6) by (simp add: cacheDecision_def)
  then have "cacheStuff E path fileInfo s =
          Inl (returnOnErrFv (tell ''trice c was executed before, nothing to do'' s))"
    using assms(1-4) by (simp add: cacheStuff_def)
  then have "triceIDCleaning E path fileInfo s =
          returnOnErrFv (tell ''trice c was executed before, nothing to do'' s)"
    using True by (simp add: triceIDCleaning_def)
  with True show ?thesis
    by (simp add: returnOnErrFv_def tell_simps)
next
  case False
  then show ?thesis
    by (simp add: triceIDCleaning_def)
qed

theorem triceIDCleaning_cleaned_before_witness:
  "TriceCacheEnabled (memEnv True) \<and>
   Stat (memEnv True) cleanedTree (cacheDir (memEnv True)) = Inr \<lparr>ModTime = 1\<rparr> \<and>
   Abs (memEnv True) ''a.c'' = Inr ''a.c'' \<and>
   dropColon (memEnv True) ''a.c'' = Inr ''a.c'' \<and>
   Stat (memEnv True) cleanedTree (cleanedCachePath (memEnv True) ''a.c'') = Inr \<lparr>ModTime = 5\<rparr> \<and>
   triceIDCleaning (memEnv True) ''a.c'' \<lparr>ModTime = 5\<rparr> (memWorld cleanedTree) =
     ([], \<lparr>fsys = cleanedTree, idd = \<lparr>err = [], idToFmt = fmempty\<rparr>,
           out = [Tell ''trice c was executed before, nothing to do'', OnErrFv []]\<rparr>)"
proof -
  have h1: "TriceCacheEnabled (memEnv True)"
    by (simp add: memEnv_def)
  have h2: "Stat (memEnv True) (fsys (memWorld cleanedTree)) (cacheDir (memEnv True)) = Inr \<lparr>ModTime = 1\<rparr>"
    by (simp add: memEnv_def memWorld_def cacheDir_def memStat_def cleanedTree_def)
  have h3: "Abs (memEnv True) ''a.c'' = Inr ''a.c''"
    by (simp add: memEnv_def)
  have h4: "dropColon (memEnv True) ''a.c'' = Inr ''a.c''"
    by (simp add: dropColon_def)
  have h5: "Stat (memEnv True) (fsys (memWorld cleanedTree)) (cleanedCachePath (memEnv True) ''a.c'')
              = Inr \<lparr>ModTime = 5\<rparr>"
    by (simp add: memEnv_def memWorld_def cleanedCachePath_def cacheDir_def memStat_def cleanedTree_def)
  have h6: "ModTime \<lparr>ModTime = 5\<rparr> = ModTime \<lparr>ModTime = 5\<rparr>"
    by simp
  note inst = triceIDCleaning_cleaned_before [OF h1 h2 h3 h4 h5 h6]
  have "triceIDCleaning (memEnv True) ''a.c'' \<lparr>ModTime = 5\<rparr> (memWorld cleanedTree) =
     ([], \<lparr>fsys = cleanedTree, idd = \<lparr>err = [], idToFmt = fmempty\<rparr>,
           out = [Tell ''trice c was executed before, nothing to do'', OnErrFv []]\<rparr>)"
    using inst by (simp add: prod_eq_iff memWorld_def)
  with h1 h2 h3 h4 h5 show ?thesis
    by (simp add: memWorld_def)
qed


lemma idToFmt_join: "idToFmt (join e d) = idToFmt d"
  by (simp add: join_def split: option.splits)
























section \<open>Properties of Sprintf\<close>

subsection \<open>A format without directives of its own\<close>

lemma doPrintf_loop_plain:
  assumes "CHR ''%'' \<notin> set ty"
  shows "doPrintf_loop R n
           \<lparr>buf = [], argNum = 0, reordered = False, goodArgNum = True,
            afterIndex = False, rest = ty @ ''_%d''\<rparr> =
         \<lparr>buf = ty @ ''_'' @ showInt n, argNum = 1, reordered = False, goodArgNum = True,
          afterIndex = False, rest = []\<rparr>"
proof -
  have "takeWhile (\<lambda>c. c \<noteq> CHR ''%'') (ty @ ''_%d'') =
          ty @ takeWhile (\<lambda>c. c \<noteq> CHR ''%'') ''_%d''"
    by (rule takeWhile_append2) (use assms in auto)
  then have tw: "takeWhile (\<lambda>c. c \<noteq> CHR ''%'') (ty @ ''_%d'') = ty @ ''_''"
    by simp
  have "dropWhile (\<lambda>c. c \<noteq> CHR ''%'') (ty @ ''_%d'') =
          dropWhile (\<lambda>c. c \<noteq> CHR ''%'') ''_%d''"
    by (rule dropWhile_append2) (use assms in auto)
  then have dw: "dropWhile (\<lambda>c. c \<noteq> CHR ''%'') (ty @ ''_%d'') = ''%d''"
    by simp
  have dir: "directive R n
               \<lparr>buf = ty @ ''_'', argNum = 0, reordered = False, goodArgNum = True,
                afterIndex = False, rest = ''d''\<rparr> =
             (\<lparr>buf = ty @ ''_'' @ showInt n, argNum = 1, reordered = False, goodArgNum = True,
               afterIndex = False, rest = []\<rparr>, False)"
    by (simp add: directive_def isFlag_def isLower_def writeString_def printArg_def intVerbs_def)
  show ?thesis
    by (subst doPrintf_loop.simps) (simp add: tw dw dir doPrintf_loop.simps)
qed

lemma Sprintf_plain:
  "CHR ''%'' \<notin> set ty \<Longrightarrow> Sprintf R (ty @ ''_%d'') n = ty @ ''_'' @ showInt n"
  by (simp add: Sprintf_def doPrintf_loop_plain)

subsection \<open>The underscore of the format reaches the output\<close>

lemma keep_tail_no_underscore:
  assumes "suffix ''_%d'' r" and "r = a @ q" and "CHR ''_'' \<notin> set a"
  shows "suffix ''_%d'' q"
proof -
  from assms(1) obtain u where u: "r = u @ ''_%d''" by (auto simp: suffix_def)
  with assms(2) have "u @ ''_%d'' = a @ q" by simp
  then consider w where "u = a @ w" "w @ ''_%d'' = q" | w where "u @ w = a" "''_%d'' = w @ q"
    by (auto simp: append_eq_append_conv2)
  then show ?thesis
  proof cases
    case 1
    then show ?thesis by (auto simp: suffix_def)
  next
    case 2
    show ?thesis
    proof (cases w)
      case Nil
      with 2 show ?thesis by simp
    next
      case (Cons c w')
      with 2(2) have "c = CHR ''_''" by simp
      with Cons 2(1) assms(3) show ?thesis by auto
    qed
  qed
qed

lemma keep_tail_last:
  assumes "suffix ''_%d'' r" and "r = a @ c # q"
    and "c \<noteq> CHR ''_''" and "c \<noteq> CHR ''%''" and "c \<noteq> CHR ''d''"
  shows "suffix ''_%d'' q"
proof -
  from assms(1) obtain u where u: "r = u @ ''_%d''" by (auto simp: suffix_def)
  with assms(2) have "u @ ''_%d'' = (a @ [c]) @ q" by simp
  then consider w where "u = (a @ [c]) @ w" "w @ ''_%d'' = q"
    | w where "u @ w = a @ [c]" "''_%d'' = w @ q"
    by (auto simp only: append_eq_append_conv2)
  then show ?thesis
  proof cases
    case 1
    then show ?thesis by (auto simp: suffix_def)
  next
    case 2
    show ?thesis
    proof (cases "w = []")
      case True
      with 2 show ?thesis by simp
    next
      case False
      with 2(1) have l: "last w = c"
        by (metis last_appendR last_snoc)
      from 2(2) False have "w = ''_'' \<or> w = ''_%'' \<or> w = ''_%d''"
        by (auto simp: Cons_eq_append_conv)
      with l assms(3-5) show ?thesis by auto
    qed
  qed
qed

lemma marked_append: "marked b \<Longrightarrow> marked (b @ x)"
  and marked_appendI: "marked x \<Longrightarrow> marked (b @ x)"
  by (auto simp: marked_def)

lemma parsenum_loop_split:
  "parsenum_loop num isnum s = Some (num', isnum', r) \<Longrightarrow>
     \<exists>a. s = a @ r \<and> CHR ''_'' \<notin> set a"
proof (induction num isnum s rule: parsenum_loop.induct)
  case (1 num isnum)
  then show ?case by simp
next
  case (2 num isnum c cs)
  show ?case
  proof (cases "isDigit c")
    case False
    with 2(2) have "r = c # cs" by simp
    then show ?thesis by simp
  next
    case True
    then have c: "c \<noteq> CHR ''_''" by (auto simp: isDigit_def)
    from True 2(2) have nl: "\<not> tooLarge num"
      and rec: "parsenum_loop (num * 10 + digitVal c) True cs = Some (num', isnum', r)"
      by (auto split: if_splits)
    from 2(1) [OF True nl rec] obtain a where "cs = a @ r" "CHR ''_'' \<notin> set a" by blast
    with c have "c # cs = (c # a) @ r \<and> CHR ''_'' \<notin> set (c # a)" by simp
    then show ?thesis by blast
  qed
qed

lemma parsenum_unread:
  assumes "unread s"
  shows "unread (snd (snd (parsenum s)))"
proof (cases "parsenum_loop 0 False s")
  case None
  then show ?thesis by (simp add: parsenum_def unread_def)
next
  case (Some t)
  obtain num isnum r where t: "t = (num, isnum, r)" by (cases t)
  from parsenum_loop_split [OF Some [unfolded t]]
  obtain a where a: "s = a @ r" "CHR ''_'' \<notin> set a" by blast
  have "unread r"
  proof (cases "s = []")
    case True
    with a show ?thesis by (simp add: unread_def)
  next
    case False
    with assms have "suffix ''_%d'' s" by (simp add: unread_def)
    from keep_tail_no_underscore [OF this a] show ?thesis by (simp add: unread_def)
  qed
  then show ?thesis by (simp add: parsenum_def Some t)
qed

lemma unread_tl:
  assumes "unread r" and "r \<noteq> []" and "hd r \<noteq> CHR ''_''"
  shows "unread (tl r)"
proof -
  from assms(1,2) have "suffix ''_%d'' r" by (simp add: unread_def)
  moreover from assms(2) have "r = [hd r] @ tl r" by simp
  moreover from assms(3) have "CHR ''_'' \<notin> set [hd r]" by simp
  ultimately have "suffix ''_%d'' (tl r)" by (rule keep_tail_no_underscore)
  then show ?thesis by (simp add: unread_def)
qed

lemma argNumber_buf: "buf (fst (argNumber p)) = buf p"
  by (simp add: argNumber_def split: prod.splits)

lemma argNumber_unread:
  assumes "unread (rest p)"
  shows "unread (rest (fst (argNumber p)))"
proof (cases "rest p = [] \<or> hd (rest p) \<noteq> CHR ''[''")
  case True
  with assms show ?thesis by (simp add: argNumber_def)
next
  case False
  then obtain t where t: "rest p = CHR ''['' # t" by (cases "rest p") auto
  with assms have suf: "suffix ''_%d'' (CHR ''['' # t)" by (simp add: unread_def)
  obtain index wid ok where pa: "parseArgNumber (rest p) = (index, wid, ok)"
    by (cases "parseArgNumber (rest p)")
  have "unread (drop wid (rest p))"
  proof (cases "length (rest p) < 3 \<or> CHR '']'' \<notin> set t")
    case True
    with pa t have "wid = 1" by (auto simp: parseArgNumber_def split: if_splits)
    moreover have "unread (tl (rest p))"
      using assms t by (intro unread_tl) simp_all
    ultimately show ?thesis by (simp add: drop_Suc)
  next
    case False
    let ?inner = "takeWhile (\<lambda>c. c \<noteq> CHR '']'') t"
    let ?q = "tl (dropWhile (\<lambda>c. c \<noteq> CHR '']'') t)"
    from False pa t have wid: "wid = length ?inner + 2"
      by (auto simp: parseArgNumber_def Let_def split: prod.splits if_splits)
    from False have "dropWhile (\<lambda>c. c \<noteq> CHR '']'') t \<noteq> []" by simp
    moreover have "hd (dropWhile (\<lambda>c. c \<noteq> CHR '']'') t) = CHR '']''"
      using False hd_dropWhile [of "\<lambda>c. c \<noteq> CHR '']''" t] by auto
    ultimately have dw: "dropWhile (\<lambda>c. c \<noteq> CHR '']'') t = CHR '']'' # ?q"
      by (cases "dropWhile (\<lambda>c. c \<noteq> CHR '']'') t") auto
    have tsplit: "t = ?inner @ CHR '']'' # ?q"
      using takeWhile_dropWhile_id [of "\<lambda>c. c \<noteq> CHR '']''" t] dw by simp
    then have "CHR ''['' # t = (CHR ''['' # ?inner) @ CHR '']'' # ?q" by simp
    from keep_tail_last [OF suf this] have "suffix ''_%d'' ?q" by simp
    moreover have "drop wid (rest p) = ?q"
    proof -
      have "drop wid (rest p) = drop (length ?inner + 1) t"
        by (simp add: wid t)
      also have "\<dots> = drop (length ?inner + 1) (?inner @ CHR '']'' # ?q)"
        using tsplit by simp
      also have "\<dots> = ?q" by simp
      finally show ?thesis .
    qed
    ultimately show ?thesis by (simp add: unread_def)
  qed
  then show ?thesis
    using False pa by (auto simp: argNumber_def)
qed

lemma parseWidth_marked: "marked (buf p) \<Longrightarrow> marked (buf (parseWidth n p))"
  by (auto simp: parseWidth_def intFromArg_def writeString_def marked_append split: prod.splits)

lemma parseWidth_unread:
  assumes "unread (rest p)"
  shows "unread (rest (parseWidth n p))"
proof (cases "rest p \<noteq> [] \<and> hd (rest p) = CHR ''*''")
  case True
  then have "unread (tl (rest p))"
    using assms by (intro unread_tl) simp_all
  with True show ?thesis
    by (auto simp: parseWidth_def intFromArg_def writeString_def split: prod.splits)
next
  case False
  have "unread (snd (snd (parsenum (rest p))))"
    using assms by (rule parsenum_unread)
  with False show ?thesis
    by (auto simp: parseWidth_def split: prod.splits)
qed

lemma parsePrecision_marked: "marked (buf p) \<Longrightarrow> marked (buf (parsePrecision n p))"
proof -
  assume m: "marked (buf p)"
  let ?q = "p\<lparr>rest := tl (rest p), goodArgNum := goodArgNum p \<and> \<not> afterIndex p\<rparr>"
  have "buf (fst (argNumber ?q)) = buf p"
    by (simp add: argNumber_buf)
  with m show ?thesis
    by (auto simp: parsePrecision_def intFromArg_def writeString_def marked_append
        split: prod.splits)
qed

lemma parsePrecision_unread:
  assumes "unread (rest p)"
  shows "unread (rest (parsePrecision n p))"
proof (cases "rest p \<noteq> [] \<and> hd (rest p) = CHR ''.''")
  case False
  with assms show ?thesis by (auto simp: parsePrecision_def)
next
  case True
  let ?q = "p\<lparr>rest := tl (rest p), goodArgNum := goodArgNum p \<and> \<not> afterIndex p\<rparr>"
  obtain p1 found where a: "argNumber ?q = (p1, found)" by (cases "argNumber ?q")
  have "unread (rest ?q)"
    using assms True by (simp add: unread_tl)
  from argNumber_unread [OF this] a have u1: "unread (rest p1)" by simp
  show ?thesis
  proof (cases "rest p1 \<noteq> [] \<and> hd (rest p1) = CHR ''*''")
    case star: True
    then have "unread (tl (rest p1))"
      using u1 by (intro unread_tl) simp_all
    with True a star show ?thesis
      by (auto simp: parsePrecision_def intFromArg_def writeString_def split: prod.splits)
  next
    case nostar: False
    have "unread (snd (snd (parsenum (rest p1))))"
      using u1 by (rule parsenum_unread)
    with True a nostar show ?thesis
      by (auto simp: parsePrecision_def split: prod.splits)
  qed
qed

lemma decodeRune_underscore: "decodeRune (CHR ''_'' # t) = (''_'', 1)"
  by (simp add: decodeRune_def)

lemma take2: "2 \<le> length s \<Longrightarrow> take 2 s = [s ! 0, s ! 1]"
  by (cases s; cases "tl s") auto

lemma take3: "3 \<le> length s \<Longrightarrow> take 3 s = [s ! 0, s ! 1, s ! 2]"
  by (cases s; cases "tl s"; cases "tl (tl s)") auto

lemma take4: "4 \<le> length s \<Longrightarrow> take 4 s = [s ! 0, s ! 1, s ! 2, s ! 3]"
  by (cases s; cases "tl s"; cases "tl (tl s)"; cases "tl (tl (tl s))") auto

lemma contByte_no_underscore: "contByte lo hi s k \<Longrightarrow> 128 \<le> lo \<Longrightarrow> s ! k \<noteq> CHR ''_''"
  by (auto simp: contByte_def)

lemma decodeRune_consumed:
  assumes "s \<noteq> []" and "hd s \<noteq> CHR ''_''" and "decodeRune s = (verb, sz)"
  shows "CHR ''_'' \<notin> set (take sz s)"
proof -
  let ?b = "of_char (hd s) :: nat"
  let ?lo = "if ?b = 224 then 160 else if ?b = 240 then 144 else (128::nat)"
  let ?hi = "if ?b = 237 then 159 else if ?b = 244 then 143 else (191::nat)"
  have lo: "128 \<le> ?lo" by simp
  have s0: "s ! 0 \<noteq> CHR ''_''"
    using assms(1,2) by (cases s) auto
  have one: "take 1 s = [s ! 0]"
    using assms(1) by (cases s) auto
  consider (a) "sz = 1"
    | (b) "sz = 2" "2 \<le> length s" "contByte ?lo ?hi s 1"
    | (c) "sz = 3" "3 \<le> length s" "contByte ?lo ?hi s 1" "contByte 128 191 s 2"
    | (d) "sz = 4" "4 \<le> length s" "contByte ?lo ?hi s 1" "contByte 128 191 s 2" "contByte 128 191 s 3"
    using assms(3) unfolding decodeRune_def Let_def
    by (auto split: if_splits)
  then show ?thesis
  proof cases
    case a
    with one s0 show ?thesis by simp
  next
    case b
    from contByte_no_underscore [OF b(3) lo] s0 b(1,2) show ?thesis
      by (simp add: take2)
  next
    case c
    from contByte_no_underscore [OF c(3) lo] contByte_no_underscore [OF c(4)] s0 c(1,2)
    show ?thesis by (simp add: take3)
  next
    case d
    from contByte_no_underscore [OF d(3) lo] contByte_no_underscore [OF d(4)]
      contByte_no_underscore [OF d(5)] s0 d(1,2)
    show ?thesis by (simp add: take4)
  qed
qed

lemma doVerb_marked: "marked (buf p) \<Longrightarrow> marked (buf (doVerb R n r0 p))"
  by (auto simp: doVerb_def Let_def writeString_def marked_append split: prod.splits)

lemma doVerb_unread:
  assumes "suffix ''_%d'' (rest p)"
  shows "marked (buf (doVerb R n r0 p)) \<or> suffix ''_%d'' (rest (doVerb R n r0 p))"
proof -
  from assms have ne: "rest p \<noteq> []" by auto
  obtain verb sz where d: "decodeRune (rest p) = (verb, sz)" by (cases "decodeRune (rest p)")
  show ?thesis
  proof (cases "hd (rest p) = CHR ''_''")
    case True
    with ne obtain t where "rest p = CHR ''_'' # t" by (cases "rest p") auto
    with d have v: "verb = ''_''" by (simp add: decodeRune_underscore)
    have "marked (''%!'' @ ''_'' @ x)" for x by (simp add: marked_def)
    moreover have "marked (printArg R dt ''_'' n)" for dt
      by (simp add: printArg_def intVerbs_def marked_def)
    ultimately have "marked (buf (doVerb R n r0 p))"
      using d v by (auto simp: doVerb_def Let_def writeString_def intro: marked_appendI)
    then show ?thesis ..
  next
    case False
    from decodeRune_consumed [OF ne False d] have "CHR ''_'' \<notin> set (take sz (rest p))" .
    moreover have "rest p = take sz (rest p) @ drop sz (rest p)" by simp
    ultimately have "suffix ''_%d'' (drop sz (rest p))"
      using assms keep_tail_no_underscore by blast
    moreover have "rest (doVerb R n r0 p) = drop sz (rest p)"
      using d by (auto simp: doVerb_def Let_def writeString_def)
    ultimately show ?thesis by simp
  qed
qed

lemma directiveSlow_marked:
  "marked (buf p) \<Longrightarrow> marked (buf (fst (directiveSlow R n r0 p)))"
proof -
  assume m: "marked (buf p)"
  obtain p1 found1 where a: "argNumber p = (p1, found1)" by (cases "argNumber p")
  let ?p2 = "parseWidth n (p1\<lparr>afterIndex := found1\<rparr>)"
  let ?p3 = "parsePrecision n ?p2"
  let ?p4 = "if \<not> afterIndex ?p3
             then (case argNumber ?p3 of (q, found) \<Rightarrow> q\<lparr>afterIndex := found\<rparr>) else ?p3"
  have "buf p1 = buf p" using argNumber_buf [of p] a by simp
  with m have "marked (buf (p1\<lparr>afterIndex := found1\<rparr>))" by simp
  then have "marked (buf ?p2)" by (rule parseWidth_marked)
  then have m3: "marked (buf ?p3)" by (rule parsePrecision_marked)
  have "buf ?p4 = buf ?p3"
    using argNumber_buf [of ?p3] by (auto split: prod.splits)
  with m3 have m4: "marked (buf ?p4)" by simp
  have "directiveSlow R n r0 p =
          (if rest ?p4 = [] then (writeString ''%!(NOVERB)'' ?p4, True)
           else (doVerb R n r0 ?p4, False))"
    using a by (simp add: directiveSlow_def Let_def)
  then show ?thesis
    using m4 doVerb_marked [OF m4, of R n r0]
    by (simp add: writeString_def marked_append)
qed

lemma directiveSlow_unread:
  assumes "unread (rest p)"
  shows "marked (buf (fst (directiveSlow R n r0 p))) \<or>
         (\<not> snd (directiveSlow R n r0 p) \<and> suffix ''_%d'' (rest (fst (directiveSlow R n r0 p))))"
proof -
  obtain p1 found1 where a: "argNumber p = (p1, found1)" by (cases "argNumber p")
  let ?p2 = "parseWidth n (p1\<lparr>afterIndex := found1\<rparr>)"
  let ?p3 = "parsePrecision n ?p2"
  let ?p4 = "if \<not> afterIndex ?p3
             then (case argNumber ?p3 of (q, found) \<Rightarrow> q\<lparr>afterIndex := found\<rparr>) else ?p3"
  have "unread (rest p1)" using argNumber_unread [OF assms] a by simp
  then have "unread (rest (p1\<lparr>afterIndex := found1\<rparr>))" by simp
  then have "unread (rest ?p2)" by (rule parseWidth_unread)
  then have u3: "unread (rest ?p3)" by (rule parsePrecision_unread)
  have u4: "unread (rest ?p4)"
    using u3 argNumber_unread [OF u3] by (auto split: prod.splits)
  have eq: "directiveSlow R n r0 p =
          (if rest ?p4 = [] then (writeString ''%!(NOVERB)'' ?p4, True)
           else (doVerb R n r0 ?p4, False))"
    using a by (simp add: directiveSlow_def Let_def)
  show ?thesis
  proof (cases "rest ?p4 = []")
    case True
    have "marked (buf (writeString ''%!(NOVERB)'' ?p4))"
      by (simp add: writeString_def marked_def)
    with True eq show ?thesis by simp
  next
    case False
    with u4 have "suffix ''_%d'' (rest ?p4)" by (simp add: unread_def)
    from doVerb_unread [OF this, of R n r0] False eq show ?thesis by auto
  qed
qed

lemma tail_nonempty: "suffix ''_%d'' r \<Longrightarrow> r \<noteq> []"
  by auto

lemma tail_tl_nonempty: "suffix ''_%d'' r \<Longrightarrow> tl r \<noteq> []"
  by (cases r) (auto simp: suffix_def Cons_eq_append_conv)

lemma directive_marked: "marked (buf p) \<Longrightarrow> marked (buf (fst (directive R n p)))"
proof -
  assume m: "marked (buf p)"
  let ?r1 = "dropWhile isFlag (rest p)"
  show ?thesis
  proof (cases "?r1 \<noteq> [] \<and> isLower (hd ?r1) \<and> argNum p < 1")
    case True
    show ?thesis
      unfolding directive_def Let_def if_P [OF True]
      using m by (simp add: writeString_def marked_append)
  next
    case False
    have "marked (buf (p\<lparr>rest := ?r1\<rparr>))" using m by simp
    from directiveSlow_marked [OF this] show ?thesis
      unfolding directive_def Let_def if_not_P [OF False] .
  qed
qed

lemma directive_unread:
  assumes "suffix ''_%d'' (rest p)"
  shows "marked (buf (fst (directive R n p))) \<or>
         (\<not> snd (directive R n p) \<and> suffix ''_%d'' (rest (fst (directive R n p))))"
proof -
  let ?r1 = "dropWhile isFlag (rest p)"
  have "rest p = takeWhile isFlag (rest p) @ ?r1" by simp
  moreover have "CHR ''_'' \<notin> set (takeWhile isFlag (rest p))"
    by (auto dest: set_takeWhileD simp: isFlag_def)
  ultimately have s1: "suffix ''_%d'' ?r1"
    using assms keep_tail_no_underscore by blast
  then have ne: "?r1 \<noteq> []" by (rule tail_nonempty)
  show ?thesis
  proof (cases "?r1 \<noteq> [] \<and> isLower (hd ?r1) \<and> argNum p < 1")
    case True
    then have "hd ?r1 \<noteq> CHR ''_''" by (auto simp: isLower_def)
    with s1 ne have "unread (tl ?r1)"
      by (intro unread_tl) (simp_all add: unread_def)
    moreover have "tl ?r1 \<noteq> []"
      using s1 by (rule tail_tl_nonempty)
    ultimately have "suffix ''_%d'' (tl ?r1)" by (simp add: unread_def)
    then show ?thesis
      unfolding directive_def Let_def if_P [OF True]
      by (simp add: writeString_def)
  next
    case False
    have "unread (rest (p\<lparr>rest := ?r1\<rparr>))" using s1 by (simp add: unread_def)
    from directiveSlow_unread [OF this] show ?thesis
      unfolding directive_def Let_def if_not_P [OF False] .
  qed
qed

lemma doPrintf_loop_done:
  assumes "dropWhile (\<lambda>c. c \<noteq> CHR ''%'') (rest p) = []"
  shows "doPrintf_loop R n p =
           p\<lparr>buf := buf p @ takeWhile (\<lambda>c. c \<noteq> CHR ''%'') (rest p), goodArgNum := True,
             rest := dropWhile (\<lambda>c. c \<noteq> CHR ''%'') (rest p)\<rparr>"
  by (subst doPrintf_loop.simps) (simp only: Let_def assms if_True simp_thms)

lemma doPrintf_loop_step:
  assumes "dropWhile (\<lambda>c. c \<noteq> CHR ''%'') (rest p) \<noteq> []"
    and "directive R n
           (p\<lparr>buf := buf p @ takeWhile (\<lambda>c. c \<noteq> CHR ''%'') (rest p), goodArgNum := True,
              rest := dropWhile (\<lambda>c. c \<noteq> CHR ''%'') (rest p)\<rparr>
            \<lparr>rest := tl (dropWhile (\<lambda>c. c \<noteq> CHR ''%'') (rest p))\<rparr>) = (p2, stop)"
  shows "doPrintf_loop R n p = (if stop then p2 else doPrintf_loop R n p2)"
  by (subst doPrintf_loop.simps) (simp only: Let_def assms if_False prod.case)

lemma doPrintf_loop_marked:
  "marked (buf p) \<or> suffix ''_%d'' (rest p) \<Longrightarrow> marked (buf (doPrintf_loop R n p))"
proof (induction R n p rule: doPrintf_loop.induct)
  case (1 R n p)
  let ?lit = "takeWhile (\<lambda>c. c \<noteq> CHR ''%'') (rest p)"
  let ?r = "dropWhile (\<lambda>c. c \<noteq> CHR ''%'') (rest p)"
  let ?p1 = "p\<lparr>buf := buf p @ ?lit, goodArgNum := True, rest := ?r\<rparr>"
  let ?q = "?p1\<lparr>rest := tl ?r\<rparr>"
  have split: "rest p = ?lit @ ?r" by simp
  have start: "marked (buf ?p1) \<or> (?r \<noteq> [] \<and> suffix ''_%d'' (tl ?r))"
  proof (cases "marked (buf p) \<or> CHR ''_'' \<in> set ?lit")
    case True
    then show ?thesis by (auto simp: marked_def)
  next
    case False
    with "1.prems" have suf: "suffix ''_%d'' (rest p)" by simp
    from keep_tail_no_underscore [OF suf split] False have s: "suffix ''_%d'' ?r" by simp
    then have ne: "?r \<noteq> []" by (rule tail_nonempty)
    then have "hd ?r = CHR ''%''"
      using hd_dropWhile [of "\<lambda>c. c \<noteq> CHR ''%''" "rest p"] by simp
    with s ne have "unread (tl ?r)"
      by (intro unread_tl) (simp_all add: unread_def)
    moreover have "tl ?r \<noteq> []"
      using s by (rule tail_tl_nonempty)
    ultimately show ?thesis using ne by (simp add: unread_def)
  qed
  show ?case
  proof (cases "?r = []")
    case True
    with start have "marked (buf ?p1)" by simp
    moreover have "doPrintf_loop R n p = ?p1"
      using True by (rule doPrintf_loop_done)
    ultimately show ?thesis by simp
  next
    case False
    obtain p2 stop where d: "directive R n ?q = (p2, stop)" by (cases "directive R n ?q")
    have eq: "doPrintf_loop R n p = (if stop then p2 else doPrintf_loop R n p2)"
      using False d by (rule doPrintf_loop_step)
    have after: "marked (buf p2) \<or> (\<not> stop \<and> suffix ''_%d'' (rest p2))"
    proof (cases "marked (buf ?p1)")
      case True
      then have "marked (buf ?q)" by simp
      from directive_marked [OF this, of R n] d show ?thesis by simp
    next
      case nm: False
      with start have "suffix ''_%d'' (rest ?q)" by simp
      from directive_unread [OF this, of R n] d show ?thesis by simp
    qed
    show ?thesis
    proof (cases stop)
      case True
      with after eq show ?thesis by simp
    next
      case ns: False
      have "marked (buf (doPrintf_loop R n p2))"
      proof (rule "1.IH" [OF refl refl refl False d [symmetric] ns])
        show "marked (buf p2) \<or> suffix ''_%d'' (rest p2)" using after by blast
      qed
      with ns eq show ?thesis by simp
    qed
  qed
qed

lemma Sprintf_marked: "marked (Sprintf R (ty @ ''_%d'') n)"
proof -
  let ?p0 = "\<lparr>buf = [], argNum = 0, reordered = False, goodArgNum = True,
              afterIndex = False, rest = ty @ ''_%d''\<rparr>"
  have "suffix ''_%d'' (rest ?p0)" by (simp add: suffix_def)
  then have "marked (buf (doPrintf_loop R n ?p0))"
    by (intro doPrintf_loop_marked) simp
  then show ?thesis
    by (simp add: Sprintf_def Let_def marked_append)
qed

section \<open>Properties of the format specifier reconciler\<close>

lemma distinct_sorted_list_of_fset: "distinct (sorted_list_of_fset S)"
  by (simp add: sorted_list_of_fset.rep_eq)

lemma AddFmtCount_loop_lookup:
  "distinct keys \<Longrightarrow>
   fmlookup (fst (AddFmtCount_loop cfg keys (ilu, w))) k =
     (if k \<in> set keys then map_option (AddFmtCount_entry cfg) (fmlookup ilu k)
      else fmlookup ilu k)"
proof (induction keys arbitrary: ilu w)
  case Nil
  show ?case by simp
next
  case (Cons i keys)
  then have d: "distinct keys" and ni: "i \<notin> set keys" by simp_all
  show ?case
  proof (cases "fmlookup ilu i")
    case None
    then show ?thesis
      using Cons.IH [OF d, of ilu w] by auto
  next
    case (Some x)
    obtain rs y where b: "AddFmtCount_body cfg x = (rs, y)"
      by (cases "AddFmtCount_body cfg x")
    show ?thesis
    proof (cases y)
      case None
      with b have e: "AddFmtCount_entry cfg x = x"
        by (simp add: AddFmtCount_entry_def)
      show ?thesis
        using Cons.IH [OF d, of ilu "w @ rs"] Some b None e ni by auto
    next
      case (Some x')
      with b have e: "AddFmtCount_entry cfg x = x'"
        by (simp add: AddFmtCount_entry_def)
      show ?thesis
        using Cons.IH [OF d, of "fmupd i x' ilu" "w @ rs"] \<open>fmlookup ilu i = Some x\<close> b Some e ni
        by auto
    qed
  qed
qed

lemma AddFmtCount_loop_any_order:
  assumes "distinct keys" and "set keys = fset (fmdom ilu)"
  shows "fst (AddFmtCount_loop cfg keys (ilu, w)) = fmmap (AddFmtCount_entry cfg) ilu"
proof (rule fmap_ext)
  fix k
  show "fmlookup (fst (AddFmtCount_loop cfg keys (ilu, w))) k =
        fmlookup (fmmap (AddFmtCount_entry cfg) ilu) k"
  proof (cases "k \<in> set keys")
    case True
    then show ?thesis by (simp add: AddFmtCount_loop_lookup [OF assms(1)])
  next
    case False
    with assms(2) have "k |\<notin>| fmdom ilu" by simp
    then have "fmlookup ilu k = None" by (rule fmdom_notD)
    with False show ?thesis by (simp add: AddFmtCount_loop_lookup [OF assms(1)])
  qed
qed

lemma AddFmtCount_fmmap: "fst (AddFmtCount cfg ilu) = fmmap (AddFmtCount_entry cfg) ilu"
  unfolding AddFmtCount_def
  by (rule AddFmtCount_loop_any_order) (simp_all add: distinct_sorted_list_of_fset)

lemma Split_length: "c \<in> set s \<Longrightarrow> 2 \<le> length (Split s c)"
proof (induction s)
  case Nil
  then show ?case by simp
next
  case (Cons a s)
  have ne: "Split s c \<noteq> []" for s :: string
    by (induction s) (auto split: list.splits)
  show ?case
  proof (cases "a = c")
    case True
    with ne [of s] show ?thesis by (cases "Split s c") auto
  next
    case False
    with Cons have "2 \<le> length (Split s c)" by simp
    with False show ?thesis by (auto split: list.splits)
  qed
qed

lemma Split_no_sep: "c \<notin> set s \<Longrightarrow> Split s c = [s]"
  by (induction s) auto

lemma ContainsAny_single: "ContainsAny s [c] = (c \<in> set s)"
  by (simp add: ContainsAny_def)

lemma AddFmtCount_body_marked:
  assumes "marked (Type x)"
  shows "snd (AddFmtCount_body cfg x) = None"
proof (cases "CHR ''N'' \<in> set (Type x)")
  case True
  then show ?thesis
    by (simp add: AddFmtCount_body_def Let_def ContainsAny_single)
next
  case False
  with assms have "CHR ''_'' \<in> set (Type x)" by (simp add: marked_def)
  then have "2 \<le> length (Split (Type x) (CHR ''_''))" by (rule Split_length)
  then show ?thesis
    by (auto simp: AddFmtCount_body_def Let_def split: option.splits)
qed

lemma AddFmtCount_body_rewrite:
  assumes "snd (AddFmtCount_body cfg x) = Some x'"
  shows "x' = x\<lparr>Type := Sprintf (fmtRender cfg) (Type x @ ''_%d'') (formatSpecifierCount cfg (Strg x))\<rparr>"
  using assms
  by (auto simp: AddFmtCount_body_def Let_def split: if_splits option.splits)

lemma AddFmtCount_entry_idem:
  "AddFmtCount_entry cfg (AddFmtCount_entry cfg x) = AddFmtCount_entry cfg x"
proof (cases "snd (AddFmtCount_body cfg x)")
  case None
  then show ?thesis by (simp add: AddFmtCount_entry_def)
next
  case (Some x')
  from AddFmtCount_body_rewrite [OF Some] have "marked (Type x')"
    by (simp add: Sprintf_marked)
  then have "snd (AddFmtCount_body cfg x') = None" by (rule AddFmtCount_body_marked)
  with Some show ?thesis by (simp add: AddFmtCount_entry_def)
qed

text \<open>
  Claim C4 (reconciler fixpoint). For every catalog, every count rule and every
  rendering of \<open>Sprintf\<close>, applying \<open>AddFmtCount\<close> to the catalog it has produced
  changes nothing: a type name it has written holds an underscore or the letter
  \<open>N\<close> and is left alone in the second pass.
\<close>

theorem AddFmtCount_idempotent:
  "fst (AddFmtCount cfg (fst (AddFmtCount cfg C))) = fst (AddFmtCount cfg C)"
proof (rule fmap_ext)
  fix k
  show "fmlookup (fst (AddFmtCount cfg (fst (AddFmtCount cfg C)))) k =
        fmlookup (fst (AddFmtCount cfg C)) k"
    by (cases "fmlookup C k") (simp_all add: AddFmtCount_fmmap AddFmtCount_entry_idem)
qed

lemma showInt_digit: "0 \<le> n \<Longrightarrow> n < 10 \<Longrightarrow> showInt n = [''0123456789'' ! nat n]"
  by (simp add: showInt_def showNat.simps)

lemma percentCount_example: "percentCount ''hi %03u, %5x'' = 2"
  by (simp add: percentCount_def)

lemma entry_TRICE16:
  "AddFmtCount_entry plainCfg \<lparr>Type = ''TRICE16'', Strg = ''hi %03u, %5x''\<rparr> =
     \<lparr>Type = ''TRICE16_2'', Strg = ''hi %03u, %5x''\<rparr>"
proof -
  have "Sprintf R (''TRICE16'' @ ''_%d'') 2 = ''TRICE16'' @ ''_'' @ showInt 2" for R
    by (rule Sprintf_plain) simp
  then have s: "Sprintf R ''TRICE16_%d'' 2 = ''TRICE16_2''" for R
    by (simp add: showInt_digit)
  show ?thesis
    by (simp add: AddFmtCount_entry_def AddFmtCount_body_def plainCfg_def percentCount_example
        ContainsAny_def s)
qed

lemma entry_Trice8_2:
  "AddFmtCount_entry plainCfg \<lparr>Type = ''Trice8_2'', Strg = ''hi %03u, %5x''\<rparr> =
     \<lparr>Type = ''Trice8_2'', Strg = ''hi %03u, %5x''\<rparr>"
  by (simp add: AddFmtCount_entry_def AddFmtCount_body_def plainCfg_def percentCount_example
        ContainsAny_def Atoi_def isDigit_def digitVal_def)

theorem AddFmtCount_idempotent_witness:
  "fmlookup (fst (AddFmtCount plainCfg exampleCatalog)) 10001 =
     Some \<lparr>Type = ''TRICE16_2'', Strg = ''hi %03u, %5x''\<rparr> \<and>
   fmlookup (fst (AddFmtCount plainCfg exampleCatalog)) 10000 =
     Some \<lparr>Type = ''Trice8_2'', Strg = ''hi %03u, %5x''\<rparr> \<and>
   fst (AddFmtCount plainCfg (fst (AddFmtCount plainCfg exampleCatalog))) =
     fst (AddFmtCount plainCfg exampleCatalog)"
proof -
  have a: "fmlookup (fst (AddFmtCount plainCfg exampleCatalog)) 10001 =
     Some \<lparr>Type = ''TRICE16_2'', Strg = ''hi %03u, %5x''\<rparr>"
    by (simp add: AddFmtCount_fmmap exampleCatalog_def entry_TRICE16)
  have b: "fmlookup (fst (AddFmtCount plainCfg exampleCatalog)) 10000 =
     Some \<lparr>Type = ''Trice8_2'', Strg = ''hi %03u, %5x''\<rparr>"
    by (simp add: AddFmtCount_fmmap exampleCatalog_def entry_Trice8_2)
  from a b AddFmtCount_idempotent [of plainCfg exampleCatalog] show ?thesis
    by blast
qed

lemma Sprintf_percent_d:
  "Sprintf (fmtRender plainCfg) ''TRICE%d_%d'' 1 = ''TRICE1_%!d(MISSING)''"
  by code_simp

text \<open>
  What claim C5 says holds where the type name has no percent sign of its own: then
  the format \<open>x.Type + "_%d"\<close> has the one directive \<open>%d\<close>.
\<close>

lemma AddFmtCount_entry_plain:
  assumes "CHR ''_'' \<notin> set (Type x)"
    and "CHR ''S'' \<notin> set (Type x)" and "CHR ''N'' \<notin> set (Type x)"
    and "CHR ''B'' \<notin> set (Type x)" and "CHR ''F'' \<notin> set (Type x)"
    and "CHR ''%'' \<notin> set (Type x)"
    and "n = formatSpecifierCount cfg (Strg x)"
  shows "(n = 0 \<longrightarrow> AddFmtCount_entry cfg x = x) \<and>
         (1 \<le> n \<and> n \<le> 12 \<longrightarrow>
            AddFmtCount_entry cfg x = x\<lparr>Type := Type x @ ''_'' @ showInt n\<rparr>)"
proof -
  have sp: "Split (Type x) (CHR ''_'') = [Type x]"
    using assms(1) by (rule Split_no_sep)
  have pr: "Sprintf (fmtRender cfg) (Type x @ ''_%d'') n = Type x @ ''_'' @ showInt n"
    using assms(6) by (rule Sprintf_plain)
  show ?thesis
    using assms(2-5,7) sp pr
    by (simp add: AddFmtCount_entry_def AddFmtCount_body_def ContainsAny_single)
qed

text \<open>
  Claim C5 (rewrite to \<open>Type + "_" + n\<close>) against the code: the type name is part of
  the format handed to \<open>Sprintf\<close>. The entry \<open>{Type: "TRICE%d", Strg: "x=%d"}\<close> has
  no underscore and none of the letters \<open>S\<close>, \<open>N\<close>, \<open>B\<close>, \<open>F\<close> in its type name,
  and one specifier; \<open>AddFmtCount\<close> writes the type name \<open>TRICE1_%!d(MISSING)\<close>, not
  \<open>TRICE%d_1\<close>: the operand is used up by the \<open>%d\<close> of the type name.
\<close>

theorem AddFmtCount_percent_in_Type:
  "CHR ''_'' \<notin> set ''TRICE%d'' \<and> \<not> ContainsAny ''TRICE%d'' ''SNBF'' \<and>
   formatSpecifierCount plainCfg ''x=%d'' = 1 \<and>
   fmlookup percentCatalog 10001 = Some \<lparr>Type = ''TRICE%d'', Strg = ''x=%d''\<rparr> \<and>
   fmlookup (fst (AddFmtCount plainCfg percentCatalog)) 10001 =
     Some \<lparr>Type = ''TRICE1_%!d(MISSING)'', Strg = ''x=%d''\<rparr>"
proof -
  have n: "formatSpecifierCount plainCfg ''x=%d'' = 1"
    by (simp add: plainCfg_def percentCount_def)
  have s: "Sprintf (fmtRender plainCfg) ''TRICE%d_%d'' 1 = ''TRICE1_%!d(MISSING)''"
    by (rule Sprintf_percent_d)
  have "AddFmtCount_entry plainCfg \<lparr>Type = ''TRICE%d'', Strg = ''x=%d''\<rparr> =
          \<lparr>Type = ''TRICE1_%!d(MISSING)'', Strg = ''x=%d''\<rparr>"
    by (simp add: AddFmtCount_entry_def AddFmtCount_body_def n s ContainsAny_def)
  then have "fmlookup (fst (AddFmtCount plainCfg percentCatalog)) 10001 =
     Some \<lparr>Type = ''TRICE1_%!d(MISSING)'', Strg = ''x=%d''\<rparr>"
    by (simp add: AddFmtCount_fmmap percentCatalog_def)
  with n show ?thesis
    by (simp add: ContainsAny_def percentCatalog_def)
qed

end
